theory Spec2Isabelle
  imports Main "HOL-Library.Word" "HOL-Library.Sublist" "HOL-Library.Monad_Syntax"
begin

unbundle bit_operations_syntax

section \<open>The C runtime functions the host uses\<close>

text \<open>
  A \<^verbatim>\<open>wchar_t\<close> string is modelled by its characters up to the terminating null, as a
  \<^typ>\<open>string\<close>. A fixed array \<^verbatim>\<open>wchar_t x[N]\<close> holds at most \<open>N - 1\<close> characters and the
  terminator. The secure string functions of the C runtime check the destination size;
  when the result does not fit they call the invalid-parameter handler, which ends the
  process. That outcome is the value \<open>None\<close> throughout.
\<close>

definition MAX_PATH :: nat where
  "MAX_PATH = 260"

definition BACKSLASH :: char where
  "BACKSLASH = CHR 0x5C"

definition wcscpy_s :: "nat \<Rightarrow> string \<Rightarrow> string option" where
  \<comment> \<open>\<^verbatim>\<open>wcscpy_s(dest, size, src)\<close>: the new contents of \<^verbatim>\<open>dest\<close>.\<close>
  "wcscpy_s size' src = (if length src < size' then Some src else None)"

definition wcscat_s :: "string \<Rightarrow> nat \<Rightarrow> string \<Rightarrow> string option" where
  \<comment> \<open>\<^verbatim>\<open>wcscat_s(dest, size, src)\<close>: the new contents of \<^verbatim>\<open>dest\<close>.\<close>
  "wcscat_s dest size' src =
     (if length dest + length src < size' then Some (dest @ src) else None)"

definition wcsncpy_s :: "nat \<Rightarrow> string \<Rightarrow> nat \<Rightarrow> string option" where
  \<comment> \<open>\<^verbatim>\<open>wcsncpy_s(dest, size, src, count)\<close>: copies the first \<open>min count (wcslen src)\<close>
      characters and a terminator; the string now standing at \<^verbatim>\<open>dest\<close>.\<close>
  "wcsncpy_s size' src count =
     (if min count (length src) < size' then Some (take count src) else None)"

fun wcsstr :: "string \<Rightarrow> string \<Rightarrow> string option" where
  \<comment> \<open>\<^verbatim>\<open>wcsstr(str, strSearch)\<close>: the rest of \<^verbatim>\<open>str\<close> from the first occurrence on,
      \<open>None\<close> for the null pointer.\<close>
  "wcsstr [] strSearch = (if strSearch = [] then Some [] else None)"
| "wcsstr (c # cs) strSearch =
     (if prefix strSearch (c # cs) then Some (c # cs) else wcsstr cs strSearch)"

fun wcsrchr :: "string \<Rightarrow> char \<Rightarrow> nat option" where
  \<comment> \<open>\<^verbatim>\<open>wcsrchr(str, c)\<close>: the index of the last occurrence, \<open>None\<close> for the null
      pointer.\<close>
  "wcsrchr [] c = None"
| "wcsrchr (x # xs) c =
     (case wcsrchr xs c of
        Some i \<Rightarrow> Some (Suc i)
      | None \<Rightarrow> if x = c then Some 0 else None)"

definition towlower :: "char \<Rightarrow> char" where
  \<comment> \<open>In the C locale only the letters A to Z change.\<close>
  "towlower c =
     (let n = (of_char c :: nat) in if 65 \<le> n \<and> n \<le> 90 then char_of (n + 32) else c)"

section \<open>StringBuffer\<close>

text \<open>
  \<^verbatim>\<open>m_buffer\<close> is \<open>None\<close> for the null pointer and otherwise the string that stands at
  the start of the allocation (what \<^verbatim>\<open>CStr()\<close> shows a reader). Sizes are of type
  \<^verbatim>\<open>size_t\<close>; they are natural numbers here, since no allocation reaches \<open>2^64\<close>
  characters.
\<close>

record StringBuffer =
  m_buffer :: "string option"
  m_capacity :: nat
  m_length :: nat

definition m_defaultSize :: nat where
  "m_defaultSize = 4096"

definition StringBuffer_init :: StringBuffer where
  \<comment> \<open>The constructor.\<close>
  "StringBuffer_init = \<lparr>m_buffer = None, m_capacity = 0, m_length = 0\<rparr>"

definition CStr :: "StringBuffer \<Rightarrow> string option" where
  "CStr sb = m_buffer sb"

definition store_at :: "string \<Rightarrow> nat \<Rightarrow> string \<Rightarrow> string" where
  \<comment> \<open>The string at the start of a buffer after a terminated string \<open>s\<close> was written at
      offset \<open>off\<close>: a write behind the old terminator is not seen from the start.\<close>
  "store_at buffer off s = (if off \<le> length buffer then take off buffer @ s else buffer)"

definition Append :: "StringBuffer \<Rightarrow> string \<Rightarrow> nat \<Rightarrow> StringBuffer option" where
  "Append sb str strLen =
     (let (buffer, capacity) =
            (case m_buffer sb of
               None \<Rightarrow> ([], m_defaultSize)
             | Some b \<Rightarrow> (b, m_capacity sb))
      in do {
        (buffer, capacity) \<leftarrow>
          (if m_length sb + strLen + 1 > capacity then do {
             let newCapacity = capacity * 2;
             newBuffer \<leftarrow> wcsncpy_s newCapacity buffer (m_length sb);
             Some (newBuffer, newCapacity)
           } else Some (buffer, capacity));
        \<comment> \<open>\<^verbatim>\<open>m_buffer + m_length\<close> must lie inside the allocation\<close>
        copied \<leftarrow>
          (if m_length sb < capacity
           then wcsncpy_s (capacity - m_length sb) str strLen
           else None);
        Some \<lparr>m_buffer = Some (store_at buffer (m_length sb) copied),
              m_capacity = capacity,
              m_length = m_length sb + strLen\<rparr>
      })"

definition contents :: "StringBuffer \<Rightarrow> string" where
  \<comment> \<open>The characters a buffer holds; none before the first allocation.\<close>
  "contents sb = (case CStr sb of None \<Rightarrow> [] | Some b \<Rightarrow> b)"

definition StringBuffer_inv :: "StringBuffer \<Rightarrow> bool" where
  \<comment> \<open>The class invariant: \<^verbatim>\<open>m_length\<close> is the length of the stored string.\<close>
  "StringBuffer_inv sb = (m_length sb = length (contents sb))"

definition capacity_before :: "StringBuffer \<Rightarrow> nat" where
  \<comment> \<open>The capacity \<^verbatim>\<open>Append\<close> starts from: the default size on first use.\<close>
  "capacity_before sb = (if m_buffer sb = None then m_defaultSize else m_capacity sb)"

section \<open>The operating system as the host sees it\<close>

text \<open>
  The Windows functions are not part of the program. They are modelled by what the
  program can observe of them. A directory is the list of its entries in the order a
  search returns them; a search pattern selects the entries whose names it matches,
  letter case ignored.
\<close>

record WIN32_FIND_DATA =
  dwFileAttributes :: "32 word"
  cFileName :: string

definition FILE_ATTRIBUTE_DIRECTORY :: "32 word" where
  "FILE_ATTRIBUTE_DIRECTORY = 0x10"

type_synonym HMODULE = nat
type_synonym HRESULT = "32 word"
type_synonym DWORD = "32 word"

definition FAILED :: "HRESULT \<Rightarrow> bool" where
  "FAILED hr = (sint hr < 0)"

datatype STARTUP_FLAGS = STARTUP_LOADER_OPTIMIZATION_SINGLE_DOMAIN | STARTUP_SINGLE_APPDOMAIN

datatype APPDOMAIN_FLAGS =
  APPDOMAIN_ENABLE_PLATFORM_SPECIFIC_APPS | APPDOMAIN_ENABLE_PINVOKE_AND_CLASSIC_COMINTEROP

text \<open>
  The calls the program makes to the loader, to the directory search, to the console and
  to the runtime host, in the order it makes them. A combination of flags is the list of
  the flags joined by \<^verbatim>\<open>|\<close>; a \<^verbatim>\<open>const wchar_t*\<close> that may be null is a
  \<^typ>\<open>string option\<close>.
\<close>

datatype call =
    LoadLibraryExW string
  | GetModuleHandleExW_PIN string
  | FreeLibrary HMODULE
  | FindFirstFileW string
  | GetProcAddress HMODULE string
  | GetCLRRuntimeHost_IID_ICLRRuntimeHost2
  | SetStartupFlags "STARTUP_FLAGS list"
  | Authenticate_CORECLR_HOST_AUTHENTICATION_KEY
  | Start
  | CreateAppDomainWithManager string "APPDOMAIN_FLAGS list" nat "string list" "string option list"
  | ExecuteAssembly DWORD string nat "string list option"
  | UnloadAppDomain DWORD bool
  | Stop
  | Release
  | wprintf string
  | getchar

record os =
  files :: "string \<Rightarrow> WIN32_FIND_DATA list"
    \<comment> \<open>the entries of the directory with this path (final backslash included)\<close>
  environment :: "string \<Rightarrow> string option"
  this_module :: string
    \<comment> \<open>\<^verbatim>\<open>GetModuleFileNameW(GetModuleHandleW(nullptr), ...)\<close>\<close>
  load_library :: "string \<Rightarrow> HMODULE option"
  pin_module :: "string \<Rightarrow> bool"
  module_file_name :: "HMODULE \<Rightarrow> string"
  full_path_name :: "string \<Rightarrow> (string \<times> nat option) option"
    \<comment> \<open>\<^verbatim>\<open>GetFullPathName\<close>: the full path and the offset of its file part (\<open>None\<close> for
        a null \<^verbatim>\<open>filePart\<close>); \<open>None\<close> when the call fails\<close>
  proc_address :: "HMODULE \<Rightarrow> string \<Rightarrow> bool"
  debugger_present :: bool
  uninitialized_path :: string
    \<comment> \<open>what stands in the array \<^verbatim>\<open>m_coreCLRDirectoryPath\<close> before anything is written
        to it\<close>
  hr_GetCLRRuntimeHost :: HRESULT
  hr_SetStartupFlags :: HRESULT
  hr_Authenticate :: HRESULT
  hr_Start :: HRESULT
  hr_CreateAppDomainWithManager :: HRESULT
  created_domainId :: DWORD
  hr_ExecuteAssembly :: HRESULT
  returned_exitCode :: "DWORD option"
    \<comment> \<open>what \<^verbatim>\<open>ExecuteAssembly\<close> stores through its last argument, if anything\<close>
  hr_UnloadAppDomain :: HRESULT
  hr_Stop :: HRESULT

fun wild_match :: "string \<Rightarrow> string \<Rightarrow> bool" where
  \<comment> \<open>a search pattern with \<^verbatim>\<open>*\<close> and \<^verbatim>\<open>?\<close> against a name\<close>
  "wild_match [] [] = True"
| "wild_match [] (c # cs) = False"
| "wild_match (p # ps) [] = (p = CHR ''*'' \<and> wild_match ps [])"
| "wild_match (p # ps) (c # cs) =
     (if p = CHR ''*'' then wild_match ps (c # cs) \<or> wild_match (p # ps) cs
      else (p = CHR ''?'' \<or> p = c) \<and> wild_match ps cs)"

definition split_path :: "string \<Rightarrow> string \<times> string" where
  \<comment> \<open>the directory of a path, up to its last backslash, and the rest\<close>
  "split_path path =
     (case wcsrchr path BACKSLASH of
        None \<Rightarrow> ([], path)
      | Some i \<Rightarrow> (take (Suc i) path, drop (Suc i) path))"

definition FindFirstFile :: "os \<Rightarrow> string \<Rightarrow> WIN32_FIND_DATA list" where
  \<comment> \<open>What \<^verbatim>\<open>FindFirstFile\<close> and the calls of \<^verbatim>\<open>FindNextFile\<close> after it return, in
      order; the empty list stands for \<^verbatim>\<open>INVALID_HANDLE_VALUE\<close>.\<close>
  "FindFirstFile os lpFileName =
     (let (dir, pattern) = split_path lpFileName
      in filter (\<lambda>data. wild_match (map towlower pattern) (map towlower (cFileName data)))
           (files os dir))"

definition wgetenv_s :: "os \<Rightarrow> nat \<Rightarrow> string \<Rightarrow> nat \<times> nat \<times> string" where
  \<comment> \<open>\<^verbatim>\<open>_wgetenv_s(&outSize, buffer, size, name)\<close>: the error number, \<^verbatim>\<open>outSize\<close> and
      the buffer. A variable that is not set gives size 0; a value that does not fit
      gives \<^verbatim>\<open>ERANGE\<close> and the size it needs.\<close>
  "wgetenv_s os size' name =
     (case environment os name of
        None \<Rightarrow> (0, 0, [])
      | Some v \<Rightarrow> if length v < size' then (0, length v + 1, v) else (34, length v + 1, []))"

definition GetModuleFileNameW :: "string \<Rightarrow> nat \<Rightarrow> string" where
  \<comment> \<open>the path of a module, cut to the size of the buffer\<close>
  "GetModuleFileNameW path nSize = take (nSize - 1) path"

section \<open>HostEnvironment\<close>

text \<open>
  The fields of the class, but the logger: what is written to the log is not modelled.
  \<^verbatim>\<open>m_hostExeName\<close> points into \<^verbatim>\<open>m_hostPath\<close>; it is the string from there on.
\<close>

record HostEnvironment =
  m_hostPath :: string
  m_hostDirectoryPath :: string
  m_hostExeName :: string
  m_tpaList :: StringBuffer
  m_CLRRuntimeHost :: bool
  m_coreCLRModule :: "HMODULE option"
  m_coreCLRDirectoryPath :: string

fun TPAListContainsFile_loop :: "string \<Rightarrow> string \<Rightarrow> string list \<Rightarrow> bool option" where
  "TPAListContainsFile_loop tpaList fileNameWithoutExtension [] = Some False"
| "TPAListContainsFile_loop tpaList fileNameWithoutExtension (ext # rest) = do {
     fileName \<leftarrow> wcscpy_s MAX_PATH [BACKSLASH];
     fileName \<leftarrow> wcscat_s fileName MAX_PATH fileNameWithoutExtension;
     \<comment> \<open>\<^verbatim>\<open>rgTPAExtensions[iExtension] + 1\<close>, inside the string only if it is not empty\<close>
     ext1 \<leftarrow> (case ext of [] \<Rightarrow> None | _ # ext1 \<Rightarrow> Some ext1);
     fileName \<leftarrow> wcscat_s fileName MAX_PATH ext1;
     fileName \<leftarrow> wcscat_s fileName MAX_PATH '';'';
     if wcsstr tpaList fileName \<noteq> None then Some True
     else TPAListContainsFile_loop tpaList fileNameWithoutExtension rest
   }"

definition TPAListContainsFile :: "StringBuffer \<Rightarrow> string \<Rightarrow> string list \<Rightarrow> bool option" where
  "TPAListContainsFile tpaList fileNameWithoutExtension rgTPAExtensions =
     (case CStr tpaList of
        None \<Rightarrow> Some False
      | Some s \<Rightarrow> TPAListContainsFile_loop s fileNameWithoutExtension rgTPAExtensions)"

definition RemoveExtensionAndNi :: "string \<Rightarrow> string" where
  "RemoveExtensionAndNi fileName =
     (case wcsrchr fileName CHR ''.'' of
        None \<Rightarrow> fileName
      | Some extension \<Rightarrow>
          (let fileName = take extension fileName;
               len = length fileName
           in if len > 3 \<and>
                 fileName ! (len - 1) = CHR ''i'' \<and>
                 fileName ! (len - 2) = CHR ''n'' \<and>
                 fileName ! (len - 3) = CHR ''.''
              then take (len - 3) fileName
              else fileName))"

fun AddFiles_found ::
  "string \<Rightarrow> string list \<Rightarrow> WIN32_FIND_DATA list \<Rightarrow> StringBuffer \<Rightarrow> StringBuffer option" where
  \<comment> \<open>the \<^verbatim>\<open>do ... while (FindNextFile)\<close> loop over the entries found\<close>
  "AddFiles_found targetPath rgTPAExtensions [] tpaList = Some tpaList"
| "AddFiles_found targetPath rgTPAExtensions (data # rest) tpaList = do {
     tpaList \<leftarrow>
       (if dwFileAttributes data AND FILE_ATTRIBUTE_DIRECTORY = 0 then do {
          let dirLength = length targetPath;
          let fileNameBufferSize = MAX_PATH - dirLength;
          let fileName = map towlower (cFileName data);
          fileNameWithoutExtension \<leftarrow> wcscpy_s MAX_PATH fileName;
          let fileNameWithoutExtension = RemoveExtensionAndNi fileNameWithoutExtension;
          present \<leftarrow> TPAListContainsFile tpaList fileNameWithoutExtension rgTPAExtensions;
          if \<not> present then do {
            let fileLength = length fileName;
            let assemblyPathLength = dirLength + fileLength;
            fileNameBuffer \<leftarrow> wcsncpy_s fileNameBufferSize fileName fileLength;
            tpaList \<leftarrow> Append tpaList (targetPath @ fileNameBuffer) assemblyPathLength;
            Append tpaList '';'' 1
          } else Some tpaList
        } else Some tpaList);
     AddFiles_found targetPath rgTPAExtensions rest tpaList
   }"

fun AddFiles_extensions ::
  "os \<Rightarrow> string \<Rightarrow> string list \<Rightarrow> string list \<Rightarrow> StringBuffer \<times> call list \<Rightarrow>
   (StringBuffer \<times> call list) option" where
  \<comment> \<open>the loop over \<^verbatim>\<open>iExtension\<close>, from the extensions still to scan\<close>
  "AddFiles_extensions os targetPath rgTPAExtensions [] (tpaList, calls) =
     Some (tpaList, calls)"
| "AddFiles_extensions os targetPath rgTPAExtensions (ext # rest) (tpaList, calls) = do {
     assemblyPath \<leftarrow> wcscpy_s MAX_PATH targetPath;
     assemblyPath \<leftarrow> wcscat_s assemblyPath MAX_PATH ext;
     let calls = calls @ [FindFirstFileW assemblyPath];
     tpaList \<leftarrow>
       AddFiles_found targetPath rgTPAExtensions (FindFirstFile os assemblyPath) tpaList;
     AddFiles_extensions os targetPath rgTPAExtensions rest (tpaList, calls)
   }"

definition AddFilesFromDirectoryToTPAList ::
  "os \<Rightarrow> string \<Rightarrow> string list \<Rightarrow> HostEnvironment \<times> call list \<Rightarrow>
   (HostEnvironment \<times> call list) option" where
  "AddFilesFromDirectoryToTPAList os targetPath rgTPAExtensions = (\<lambda>(this, calls). do {
     (tpaList, calls) \<leftarrow>
       AddFiles_extensions os targetPath rgTPAExtensions rgTPAExtensions
         (m_tpaList this, calls);
     Some (this\<lparr>m_tpaList := tpaList\<rparr>, calls)
   })"

definition rgTPAExtensions :: "string list" where
  "rgTPAExtensions = [''*.ni.dll'', ''*.dll'', ''*.ni.exe'', ''*.exe'']"

definition GetTpaList ::
  "os \<Rightarrow> HostEnvironment \<times> call list \<Rightarrow> (string option \<times> HostEnvironment \<times> call list) option"
  where
  "GetTpaList os = (\<lambda>(this, calls).
     if CStr (m_tpaList this) = None then do {
       let (err, outSize, coreLibraries) = wgetenv_s os MAX_PATH ''CORE_LIBRARIES'';
       (this, calls) \<leftarrow>
         (if err = 0 \<and> outSize > 0 then do {
            coreLibraries \<leftarrow> wcscat_s coreLibraries MAX_PATH [BACKSLASH];
            AddFilesFromDirectoryToTPAList os coreLibraries rgTPAExtensions (this, calls)
          } else Some (this, calls));
       (this, calls) \<leftarrow>
         AddFilesFromDirectoryToTPAList os (m_coreCLRDirectoryPath this) rgTPAExtensions
           (this, calls);
       Some (CStr (m_tpaList this), this, calls)
     } else Some (CStr (m_tpaList this), this, calls))"

section \<open>Notions used to state the properties\<close>

text \<open>
  \<^verbatim>\<open>GetTpaList\<close> calls \<^verbatim>\<open>AddFilesFromDirectoryToTPAList\<close> once for each candidate
  directory. \<open>AddFilesFromDirectories\<close> is that sequence of calls for any list of
  directories, and \<open>candidate_directories\<close> is the list \<^verbatim>\<open>GetTpaList\<close> uses.
\<close>

fun AddFilesFromDirectories ::
  "os \<Rightarrow> string list \<Rightarrow> string list \<Rightarrow> HostEnvironment \<times> call list \<Rightarrow>
   (HostEnvironment \<times> call list) option" where
  "AddFilesFromDirectories os exts [] st = Some st"
| "AddFilesFromDirectories os exts (d # ds) st = do {
     st \<leftarrow> AddFilesFromDirectoryToTPAList os d exts st;
     AddFilesFromDirectories os exts ds st
   }"

definition candidate_directories :: "os \<Rightarrow> HostEnvironment \<Rightarrow> string list" where
  "candidate_directories os this =
     (let (err, outSize, coreLibraries) = wgetenv_s os MAX_PATH ''CORE_LIBRARIES''
      in (if err = 0 \<and> outSize > 0 then [coreLibraries @ [BACKSLASH]] else []) @
         [m_coreCLRDirectoryPath this])"

text \<open>
  The files a build looks at, in the order it looks at them: for each directory, for each
  extension, the entries found that are not directories, each with its directory and its
  name in lower case.
\<close>

definition found_files :: "string \<Rightarrow> WIN32_FIND_DATA list \<Rightarrow> (string \<times> string) list" where
  "found_files targetPath found =
     map (\<lambda>data. (targetPath, map towlower (cFileName data)))
       (filter (\<lambda>data. dwFileAttributes data AND FILE_ATTRIBUTE_DIRECTORY = 0) found)"

definition ScanSequence :: "os \<Rightarrow> string list \<Rightarrow> string list \<Rightarrow> (string \<times> string) list" where
  "ScanSequence os dirs exts =
     concat (map (\<lambda>d. concat (map (\<lambda>e. found_files d (FindFirstFile os (d @ e))) exts)) dirs)"

text \<open>
  What the membership test decides, as a property of the text of the list: some extension
  gives a needle that occurs in it. \<open>add_entry\<close> is the effect of one file on the text,
  and \<open>retained\<close> lists the files whose paths get appended.
\<close>

definition listed :: "string list \<Rightarrow> string \<Rightarrow> string \<Rightarrow> bool" where
  "listed exts tpa n = list_ex (\<lambda>e. sublist (BACKSLASH # n @ tl e @ '';'') tpa) exts"

definition add_entry :: "string list \<Rightarrow> string \<Rightarrow> string \<times> string \<Rightarrow> string" where
  "add_entry exts tpa = (\<lambda>(d, f).
     if listed exts tpa (RemoveExtensionAndNi f) then tpa else tpa @ d @ f @ '';'')"

fun retained :: "string list \<Rightarrow> string \<Rightarrow> (string \<times> string) list \<Rightarrow> (string \<times> string) list" where
  "retained exts tpa [] = []"
| "retained exts tpa ((d, f) # xs) =
     (if listed exts tpa (RemoveExtensionAndNi f) then retained exts tpa xs
      else (d, f) # retained exts (tpa @ d @ f @ '';'') xs)"

definition TPA_string :: "(string \<times> string) list \<Rightarrow> string" where
  \<comment> \<open>the text of a list of entries, each a directory and a file name\<close>
  "TPA_string es = concat (map (\<lambda>(d, f). d @ f @ '';'') es)"

text \<open>
  The path entries of a trust list are the pieces between its semicolons. The logical
  name of an entry is its file name, in lower case, without extension and \<^verbatim>\<open>.ni\<close>.
\<close>

fun split_entries :: "string \<Rightarrow> string \<Rightarrow> string list" where
  "split_entries acc [] = (if acc = [] then [] else [acc])"
| "split_entries acc (c # cs) =
     (if c = CHR '';'' then acc # split_entries [] cs else split_entries (acc @ [c]) cs)"

definition TPA_entries :: "string \<Rightarrow> string list" where
  "TPA_entries tpa = split_entries [] tpa"

definition logical_name :: "string \<Rightarrow> string" where
  "logical_name path = RemoveExtensionAndNi (map towlower (snd (split_path path)))"

text \<open>
  What the properties ask of the directories scanned: a directory path ends with a
  backslash (as both paths \<^verbatim>\<open>GetTpaList\<close> passes do), and neither a directory path nor a
  file name holds the semicolon that separates the entries of the list; a file name holds
  no backslash.
\<close>

definition directory_path :: "string \<Rightarrow> bool" where
  "directory_path d = (d \<noteq> [] \<and> last d = BACKSLASH)"

definition separator_free :: "os \<Rightarrow> string list \<Rightarrow> bool" where
  "separator_free os dirs =
     (\<forall>d\<in>set dirs. CHR '';'' \<notin> set d \<and>
        (\<forall>data\<in>set (files os d).
           CHR '';'' \<notin> set (cFileName data) \<and> BACKSLASH \<notin> set (cFileName data)))"

definition well_scanned :: "string list \<Rightarrow> string \<times> string \<Rightarrow> bool" where
  \<comment> \<open>a scanned file whose directory ends with a backslash and whose name is its logical
      name followed by one of the extensions\<close>
  "well_scanned exts = (\<lambda>(d, f). d \<noteq> [] \<and> last d = BACKSLASH \<and>
     (\<exists>e\<in>set exts. f = RemoveExtensionAndNi f @ tl e))"

text \<open>
  First writer wins: of the files scanned, those are kept whose logical name no earlier
  file had. \<open>seen\<close> holds the logical names met so far.
\<close>

fun FirstWins :: "string list \<Rightarrow> (string \<times> string) list \<Rightarrow> (string \<times> string) list" where
  "FirstWins seen [] = []"
| "FirstWins seen ((d, f) # xs) =
     (if RemoveExtensionAndNi f \<in> set seen then FirstWins seen xs
      else (d, f) # FirstWins (RemoveExtensionAndNi f # seen) xs)"






definition scan_of_directory :: "os \<Rightarrow> string \<Rightarrow> string \<Rightarrow> (string \<times> string) list" where
  \<comment> \<open>the files one search pattern contributes to the scan of a directory\<close>
  "scan_of_directory os d e = found_files d (FindFirstFile os (d @ e))"

section \<open>An example machine\<close>

definition dir :: "string list \<Rightarrow> string" where
  \<comment> \<open>a directory path from its components, each followed by a backslash\<close>
  "dir components = concat (map (\<lambda>c. c @ [BACKSLASH]) components)"

definition regular_file :: "string \<Rightarrow> WIN32_FIND_DATA" where
  "regular_file name = \<lparr>dwFileAttributes = 0x20, cFileName = name\<rparr>"

definition subdirectory :: "string \<Rightarrow> WIN32_FIND_DATA" where
  "subdirectory name = \<lparr>dwFileAttributes = 0x10, cFileName = name\<rparr>"

definition example_files :: "string \<Rightarrow> WIN32_FIND_DATA list" where
  "example_files d =
     (if d = dir [''C:'', ''lib''] then
        [regular_file ''Foo.dll'', regular_file ''bar.ni.dll'']
      else if d = dir [''C:'', ''clr''] then
        [subdirectory ''sub.dll'', regular_file ''CoreCLR.dll'', regular_file ''foo.dll'',
         regular_file ''foo.ni.dll'', regular_file ''bar.dll'', regular_file ''tool.exe'',
         regular_file ''tool.ni.exe'']
      else [])"

definition example_os :: os where
  "example_os =
     \<lparr>files = example_files,
      environment = (\<lambda>name.
        if name = ''CORE_LIBRARIES'' then Some (''C:'' @ [BACKSLASH] @ ''lib'')
        else if name = ''CORE_ROOT'' then Some (''C:'' @ [BACKSLASH] @ ''clr'')
        else None),
      this_module = dir [''C:'', ''app''] @ ''hello.exe'',
      load_library = (\<lambda>path.
        if path = dir [''C:'', ''clr''] @ ''CoreCLR.dll'' then Some 1
        else if path = dir [''C:'', ''app''] @ ''hello.dll'' then Some 2
        else None),
      pin_module = (\<lambda>path. True),
      module_file_name = (\<lambda>h.
        if h = 1 then dir [''C:'', ''clr''] @ ''CoreCLR.dll''
        else dir [''C:'', ''app''] @ ''hello.dll''),
      full_path_name = (\<lambda>path. Some (path, map_option Suc (wcsrchr path BACKSLASH))),
      proc_address = (\<lambda>h name. h = 1 \<and> name = ''GetCLRRuntimeHost''),
      debugger_present = False,
      uninitialized_path = [],
      hr_GetCLRRuntimeHost = 0,
      hr_SetStartupFlags = 0,
      hr_Authenticate = 0,
      hr_Start = 0,
      hr_CreateAppDomainWithManager = 0,
      created_domainId = 1,
      hr_ExecuteAssembly = 0,
      returned_exitCode = Some 42,
      hr_UnloadAppDomain = 0,
      hr_Stop = 0\<rparr>"

definition example_host :: HostEnvironment where
  \<comment> \<open>the host environment on the example machine before the list is built\<close>
  "example_host =
     \<lparr>m_hostPath = dir [''C:'', ''app''] @ ''hello.exe'',
      m_hostDirectoryPath = dir [''C:'', ''app''],
      m_hostExeName = ''hello.exe'',
      m_tpaList = StringBuffer_init,
      m_CLRRuntimeHost = False,
      m_coreCLRModule = Some 1,
      m_coreCLRDirectoryPath = dir [''C:'', ''clr'']\<rparr>"

definition empty_os :: os where
  \<comment> \<open>the example machine with no file in any directory\<close>
  "empty_os = example_os\<lparr>files := (\<lambda>d. [])\<rparr>"

definition example_directories :: "string list" where
  "example_directories = [dir [''C:'', ''lib''], dir [''C:'', ''clr'']]"

definition example_scans :: "call list" where
  \<comment> \<open>the searches of one build on the example machine\<close>
  "example_scans =
     concat (map (\<lambda>d. map (\<lambda>e. FindFirstFileW (d @ e)) rgTPAExtensions)
       example_directories)"


section \<open>Properties of StringBuffer\<close>

lemma Append_fits:
  assumes inv: "StringBuffer_inv sb"
    and len: "strLen = length str"
    and fit: "m_length sb + strLen + 1 \<le>
              (if m_length sb + strLen + 1 > capacity_before sb
               then 2 * capacity_before sb else capacity_before sb)"
  shows "\<exists>sb'. Append sb str strLen = Some sb' \<and>
           contents sb' = contents sb @ str \<and>
           m_length sb' = m_length sb + strLen \<and>
           (m_capacity sb' = capacity_before sb \<or> m_capacity sb' = 2 * capacity_before sb) \<and>
           StringBuffer_inv sb'"
proof (cases "m_buffer sb")
  case None
  with inv have l0: "m_length sb = 0"
    by (simp add: StringBuffer_inv_def contents_def CStr_def)
  from None fit l0 len show ?thesis
    by (auto simp: Append_def wcsncpy_s_def store_at_def contents_def CStr_def
        StringBuffer_inv_def capacity_before_def split: if_splits)
next
  case (Some b)
  with inv have lb: "m_length sb = length b"
    by (simp add: StringBuffer_inv_def contents_def CStr_def)
  from Some fit lb len show ?thesis
    by (auto simp: Append_def wcsncpy_s_def store_at_def contents_def CStr_def
        StringBuffer_inv_def capacity_before_def split: if_splits)
qed

text \<open>
  C9. \<^verbatim>\<open>StringBuffer::Append\<close> with a string of length \<open>n\<close>: when the stored length plus
  \<open>n\<close> plus one fits the capacity reached after at most one doubling (starting from the
  4096 characters allocated on first use), the call returns, the buffer holds the
  previous contents followed by the \<open>n\<close> appended characters, and the capacity is the one
  before the call or twice that.
\<close>

theorem C9_Append_contents:
  assumes "StringBuffer_inv sb"
    and "length str = n"
    and "m_length sb + n + 1 \<le>
         (if m_length sb + n + 1 > capacity_before sb
          then 2 * capacity_before sb else capacity_before sb)"
  shows "\<exists>sb'. Append sb str n = Some sb' \<and>
           contents sb' = contents sb @ str \<and>
           m_length sb' = m_length sb + n \<and>
           (m_capacity sb' = capacity_before sb \<or> m_capacity sb' = 2 * capacity_before sb)"
  using Append_fits [of sb n str] assms by auto

theorem C9_Append_contents_witness:
  "\<exists>sb'. Append StringBuffer_init ''a.dll'' 5 = Some sb' \<and>
     contents sb' = contents StringBuffer_init @ ''a.dll'' \<and>
     m_length sb' = m_length StringBuffer_init + 5 \<and>
     (m_capacity sb' = capacity_before StringBuffer_init \<or>
      m_capacity sb' = 2 * capacity_before StringBuffer_init)"
proof -
  have inv: "StringBuffer_inv StringBuffer_init"
    by (simp add: StringBuffer_inv_def StringBuffer_init_def contents_def CStr_def)
  have len: "length ''a.dll'' = 5"
    by simp
  have fit: "m_length StringBuffer_init + 5 + 1 \<le>
         (if m_length StringBuffer_init + 5 + 1 > capacity_before StringBuffer_init
          then 2 * capacity_before StringBuffer_init else capacity_before StringBuffer_init)"
    by (simp add: StringBuffer_init_def capacity_before_def m_defaultSize_def)
  show ?thesis
    by (rule C9_Append_contents [OF inv len fit])
qed

section \<open>The trust list: what a build appends\<close>

lemma wcsstr_sublist: "wcsstr hay needle = None \<longleftrightarrow> \<not> sublist needle hay"
  by (induction hay) (auto simp: sublist_Cons_right)

lemma TPAListContainsFile_loop_listed:
  "TPAListContainsFile_loop s n exts = Some b \<Longrightarrow> b = listed exts s n"
proof (induction exts)
  case Nil
  then show ?case by (simp add: listed_def)
next
  case (Cons e exts)
  show ?case
  proof (cases e)
    case Nil
    with Cons.prems show ?thesis by (simp add: wcscpy_s_def wcscat_s_def split: if_splits)
  next
    case (Cons c e1)
    let ?needle = "BACKSLASH # n @ e1 @ '';''"
    show ?thesis
    proof (cases "sublist ?needle s")
      case True
      with Cons.prems \<open>e = c # e1\<close> show ?thesis
        by (auto simp: wcscpy_s_def wcscat_s_def listed_def wcsstr_sublist split: if_splits)
    next
      case False
      with Cons.prems \<open>e = c # e1\<close>
      have "TPAListContainsFile_loop s n exts = Some b"
        by (auto simp: wcscpy_s_def wcscat_s_def wcsstr_sublist split: if_splits)
      from Cons.IH [OF this] False \<open>e = c # e1\<close> show ?thesis
        by (simp add: listed_def)
    qed
  qed
qed

lemma listed_Nil [simp]: "listed exts [] n = False"
  by (induction exts) (auto simp: listed_def)

lemma TPAListContainsFile_listed:
  "TPAListContainsFile sb n exts = Some b \<Longrightarrow> b = listed exts (contents sb) n"
  by (auto simp: TPAListContainsFile_def contents_def split: option.splits
      dest: TPAListContainsFile_loop_listed)

lemma Append_Some:
  assumes "StringBuffer_inv sb" and "Append sb str n = Some sb'" and "n = length str"
  shows "contents sb' = contents sb @ str \<and> StringBuffer_inv sb' \<and> m_buffer sb' \<noteq> None"
proof (cases "m_buffer sb")
  case None
  with assms show ?thesis
    by (auto simp: Append_def wcsncpy_s_def store_at_def contents_def CStr_def
        StringBuffer_inv_def Let_def split: if_splits)
next
  case (Some b)
  with assms show ?thesis
    by (auto simp: Append_def wcsncpy_s_def store_at_def contents_def CStr_def
        StringBuffer_inv_def Let_def split: if_splits)
qed

lemma AddFiles_found_contents:
  assumes "StringBuffer_inv sb"
    and "AddFiles_found targetPath exts found sb = Some sb'"
  shows "StringBuffer_inv sb' \<and>
         contents sb' = foldl (add_entry exts) (contents sb) (found_files targetPath found)"
  using assms
proof (induction found arbitrary: sb)
  case Nil
  then show ?case by (simp add: found_files_def)
next
  case (Cons data rest)
  show ?case
  proof (cases "dwFileAttributes data AND FILE_ATTRIBUTE_DIRECTORY = 0")
    case False
    with Cons show ?thesis by (simp add: found_files_def)
  next
    case True
    let ?f = "map towlower (cFileName data)"
    from Cons.prems(2) True
    consider (skip) "TPAListContainsFile sb (RemoveExtensionAndNi ?f) exts = Some True"
        "AddFiles_found targetPath exts rest sb = Some sb'"
      | (add) sb2 sb1 where
        "TPAListContainsFile sb (RemoveExtensionAndNi ?f) exts = Some False"
        "Append sb (targetPath @ ?f) (length targetPath + length ?f) = Some sb2"
        "Append sb2 '';'' 1 = Some sb1"
        "AddFiles_found targetPath exts rest sb1 = Some sb'"
      by (auto simp: Let_def wcscpy_s_def wcsncpy_s_def split: bind_splits if_splits)
    then obtain sb1 where
      one: "StringBuffer_inv sb1 \<and> contents sb1 = add_entry exts (contents sb) (targetPath, ?f)"
      and rest: "AddFiles_found targetPath exts rest sb1 = Some sb'"
    proof cases
      case skip
      from TPAListContainsFile_listed [OF skip(1)] skip(2) Cons.prems(1) that show ?thesis
        by (simp add: add_entry_def)
    next
      case add
      from Append_Some [OF Cons.prems(1) add(2)] have
        i2: "StringBuffer_inv sb2" and c2: "contents sb2 = contents sb @ targetPath @ ?f"
        by simp_all
      from Append_Some [OF i2 add(3)] c2 TPAListContainsFile_listed [OF add(1)] add(4) that
      show ?thesis
        by (auto simp: add_entry_def)
    qed
    with Cons.IH [OF _ rest] True one show ?thesis
      by (simp add: found_files_def)
  qed
qed

lemma AddFiles_extensions_contents:
  assumes "StringBuffer_inv sb"
    and "AddFiles_extensions os targetPath exts rest (sb, calls) = Some (sb', calls')"
  shows "StringBuffer_inv sb' \<and>
         contents sb' = foldl (add_entry exts) (contents sb)
           (concat (map (\<lambda>e. found_files targetPath (FindFirstFile os (targetPath @ e))) rest)) \<and>
         calls' = calls @ map (\<lambda>e. FindFirstFileW (targetPath @ e)) rest"
  using assms
proof (induction rest arbitrary: sb calls)
  case Nil
  then show ?case by simp
next
  case (Cons e rest)
  from Cons.prems(2) obtain sb1 where
    f: "AddFiles_found targetPath exts (FindFirstFile os (targetPath @ e)) sb = Some sb1"
    and r: "AddFiles_extensions os targetPath exts rest
              (sb1, calls @ [FindFirstFileW (targetPath @ e)]) = Some (sb', calls')"
    by (auto simp: wcscpy_s_def wcscat_s_def Let_def split: bind_splits if_splits)
  from AddFiles_found_contents [OF Cons.prems(1) f] Cons.IH [OF _ r] show ?case
    by simp
qed

lemma AddFilesFromDirectoryToTPAList_contents:
  assumes "StringBuffer_inv (m_tpaList this)"
    and "AddFilesFromDirectoryToTPAList os d exts (this, calls) = Some (this', calls')"
  shows "StringBuffer_inv (m_tpaList this') \<and>
         contents (m_tpaList this') =
           foldl (add_entry exts) (contents (m_tpaList this)) (ScanSequence os [d] exts) \<and>
         calls' = calls @ map (\<lambda>e. FindFirstFileW (d @ e)) exts \<and>
         this' = this\<lparr>m_tpaList := m_tpaList this'\<rparr>"
proof -
  from assms(2) obtain sb' where
    e: "AddFiles_extensions os d exts exts (m_tpaList this, calls) = Some (sb', calls')"
    and t: "this' = this\<lparr>m_tpaList := sb'\<rparr>"
    by (auto simp: AddFilesFromDirectoryToTPAList_def split: bind_splits)
  from AddFiles_extensions_contents [OF assms(1) e] t show ?thesis
    by (simp add: ScanSequence_def)
qed

lemma ScanSequence_Cons:
  "ScanSequence os (d # ds) exts = ScanSequence os [d] exts @ ScanSequence os ds exts"
  by (simp add: ScanSequence_def)

lemma AddFilesFromDirectories_contents:
  assumes "StringBuffer_inv (m_tpaList this)"
    and "AddFilesFromDirectories os exts dirs (this, calls) = Some (this', calls')"
  shows "StringBuffer_inv (m_tpaList this') \<and>
         contents (m_tpaList this') =
           foldl (add_entry exts) (contents (m_tpaList this)) (ScanSequence os dirs exts) \<and>
         calls' = calls @ concat (map (\<lambda>d. map (\<lambda>e. FindFirstFileW (d @ e)) exts) dirs) \<and>
         this' = this\<lparr>m_tpaList := m_tpaList this'\<rparr>"
  using assms
proof (induction dirs arbitrary: this calls)
  case Nil
  then show ?case by (simp add: ScanSequence_def)
next
  case (Cons d ds)
  from Cons.prems(2) obtain this1 calls1 where
    one: "AddFilesFromDirectoryToTPAList os d exts (this, calls) = Some (this1, calls1)"
    and more: "AddFilesFromDirectories os exts ds (this1, calls1) = Some (this', calls')"
    by (auto split: bind_splits)
  note a = AddFilesFromDirectoryToTPAList_contents [OF Cons.prems(1) one]
  from a have i1: "StringBuffer_inv (m_tpaList this1)" by simp
  note b = Cons.IH [OF i1 more]
  from a b have "this' = this\<lparr>m_tpaList := m_tpaList this'\<rparr>"
    by (metis HostEnvironment.update_convs(4) HostEnvironment.surjective)
  with a b show ?case
    by (simp add: ScanSequence_Cons [of os d ds])
qed

lemma GetTpaList_AddFilesFromDirectories:
  assumes "CStr (m_tpaList this) = None"
    and "GetTpaList os (this, calls) = Some (r, this', calls')"
  shows "AddFilesFromDirectories os rgTPAExtensions (candidate_directories os this) (this, calls)
           = Some (this', calls') \<and> r = CStr (m_tpaList this')"
proof -
  have keep: "AddFilesFromDirectoryToTPAList os d exts (this, calls) = Some (t1, c1) \<Longrightarrow>
      m_coreCLRDirectoryPath t1 = m_coreCLRDirectoryPath this" for d exts t1 c1
    by (auto simp: AddFilesFromDirectoryToTPAList_def split: bind_splits)
  from assms keep show ?thesis
    by (auto simp: GetTpaList_def candidate_directories_def wcscat_s_def Let_def
        split: bind_splits if_splits prod.splits)
qed

lemma TPA_string_Cons: "TPA_string ((d, f) # es) = d @ f @ '';'' @ TPA_string es"
  by (simp add: TPA_string_def)

lemma TPA_string_Nil: "TPA_string [] = []"
  by (simp add: TPA_string_def)

lemma add_entry_pair:
  "add_entry exts tpa (d, f) =
     (if listed exts tpa (RemoveExtensionAndNi f) then tpa else tpa @ d @ f @ '';'')"
  by (simp add: add_entry_def)

lemma foldl_add_entry_retained:
  "foldl (add_entry exts) tpa xs = tpa @ TPA_string (retained exts tpa xs)"
proof (induction xs arbitrary: tpa)
  case Nil
  show ?case by (simp add: TPA_string_Nil)
next
  case (Cons x xs)
  obtain d f where x: "x = (d, f)" by (cases x)
  show ?case
    unfolding x by (simp add: add_entry_pair Cons.IH TPA_string_Cons)
qed

lemma sublist_append_right: "sublist xs ys \<Longrightarrow> sublist xs (ys @ t)"
  unfolding sublist_def by (metis append.assoc)

lemma listed_append: "listed exts tpa n \<Longrightarrow> listed exts (tpa @ t) n"
  unfolding listed_def list_ex_iff using sublist_append_right by blast

lemma well_scanned_listed:
  assumes "well_scanned exts (d, f)"
  shows "listed exts (tpa @ d @ f @ '';'' @ t) (RemoveExtensionAndNi f)"
proof -
  from assms obtain e where e: "e \<in> set exts" "f = RemoveExtensionAndNi f @ tl e"
    and d: "d = butlast d @ [BACKSLASH]"
    by (auto simp: well_scanned_def) (metis append_butlast_last_id)
  let ?needle = "BACKSLASH # RemoveExtensionAndNi f @ tl e @ '';''"
  have "tpa @ d @ f @ '';'' @ t = (tpa @ butlast d) @ ?needle @ t"
    using e(2) d by (metis append.assoc append_Cons append_Nil)
  then have "sublist ?needle (tpa @ d @ f @ '';'' @ t)"
    by (metis sublist_appendI)
  with e(1) show ?thesis
    unfolding listed_def list_ex_iff by blast
qed

lemma retained_props:
  assumes "\<forall>x\<in>set xs. well_scanned exts x"
  shows "distinct (map (\<lambda>x. RemoveExtensionAndNi (snd x)) (retained exts tpa xs)) \<and>
         (\<forall>y\<in>set (retained exts tpa xs). \<not> listed exts tpa (RemoveExtensionAndNi (snd y)))"
  using assms
proof (induction xs arbitrary: tpa)
  case Nil
  then show ?case by simp
next
  case (Cons x xs)
  obtain d f where x: "x = (d, f)" by (cases x)
  show ?case
  proof (cases "listed exts tpa (RemoveExtensionAndNi f)")
    case True
    with Cons x show ?thesis by simp
  next
    case False
    let ?tpa = "tpa @ d @ f @ '';''"
    from Cons.prems have ih:
      "distinct (map (\<lambda>x. RemoveExtensionAndNi (snd x)) (retained exts ?tpa xs))"
      "\<forall>y\<in>set (retained exts ?tpa xs). \<not> listed exts ?tpa (RemoveExtensionAndNi (snd y))"
      using Cons.IH [of ?tpa] by simp_all
    from Cons.prems x have "well_scanned exts (d, f)" by simp
    from well_scanned_listed [OF this, of tpa "[]"]
    have here: "listed exts ?tpa (RemoveExtensionAndNi f)" by simp
    have fresh: "RemoveExtensionAndNi f \<notin>
        (\<lambda>x. RemoveExtensionAndNi (snd x)) ` set (retained exts ?tpa xs)"
      using ih(2) here by force
    have older: "\<forall>y\<in>set (retained exts ?tpa xs). \<not> listed exts tpa (RemoveExtensionAndNi (snd y))"
      using ih(2) listed_append [of exts tpa _ "d @ f @ '';''"] by auto
    from False x ih(1) fresh older show ?thesis by simp
  qed
qed

lemma split_entries_entry:
  "CHR '';'' \<notin> set p \<Longrightarrow> split_entries acc (p @ CHR '';'' # s) = (acc @ p) # split_entries [] s"
  by (induction p arbitrary: acc) auto

lemma TPA_entries_TPA_string:
  assumes "\<forall>(d, f)\<in>set es. CHR '';'' \<notin> set d \<and> CHR '';'' \<notin> set f"
  shows "TPA_entries (TPA_string es) = map (\<lambda>(d, f). d @ f) es"
  using assms
proof (induction es)
  case Nil
  then show ?case by (simp add: TPA_entries_def TPA_string_def)
next
  case (Cons x es)
  obtain d f where x: "x = (d, f)" by (cases x)
  with Cons.prems have "CHR '';'' \<notin> set (d @ f)" by simp
  from split_entries_entry [OF this, of "[]" "TPA_string es"] Cons x show ?case
    by (simp add: TPA_entries_def TPA_string_def)
qed

lemma wcsrchr_None: "wcsrchr xs c = None \<longleftrightarrow> c \<notin> set xs"
  by (induction xs) (auto split: option.splits)

lemma wcsrchr_last: "c \<notin> set ys \<Longrightarrow> wcsrchr (xs @ c # ys) c = Some (length xs)"
  by (induction xs) (auto simp: wcsrchr_None split: option.splits)

lemma split_path_append:
  assumes "d \<noteq> []" and "last d = BACKSLASH" and "BACKSLASH \<notin> set f"
  shows "split_path (d @ f) = (d, f)"
proof -
  from assms have d: "d = butlast d @ [BACKSLASH]"
    by (metis append_butlast_last_id)
  have "wcsrchr (butlast d @ BACKSLASH # f) BACKSLASH = Some (length (butlast d))"
    by (rule wcsrchr_last [OF assms(3)])
  moreover have "butlast d @ BACKSLASH # f = d @ f"
    using d by (metis append.assoc append_Cons append_Nil)
  ultimately have "wcsrchr (d @ f) BACKSLASH = Some (length (butlast d))"
    by simp
  moreover have "Suc (length (butlast d)) = length d"
    using assms(1) by simp
  ultimately show ?thesis
    by (simp add: split_path_def)
qed

lemma towlower_eq_semicolon: "towlower c = CHR '';'' \<longleftrightarrow> c = CHR '';''"
  by (auto simp: towlower_def Let_def char_of_eq_iff take_bit_eq_mod)

lemma towlower_eq_backslash: "towlower c = BACKSLASH \<longleftrightarrow> c = BACKSLASH"
  by (auto simp: towlower_def Let_def char_of_eq_iff take_bit_eq_mod BACKSLASH_def)

lemma towlower_idem: "towlower (towlower c) = towlower c"
  by (auto simp: towlower_def Let_def take_bit_eq_mod)

lemma wild_match_literal:
  "CHR ''*'' \<notin> set p \<Longrightarrow> CHR ''?'' \<notin> set p \<Longrightarrow> wild_match p s \<longleftrightarrow> s = p"
  by (induction p s rule: wild_match.induct) auto

lemma wild_match_star:
  assumes "CHR ''*'' \<notin> set p" and "CHR ''?'' \<notin> set p"
  shows "wild_match (CHR ''*'' # p) s \<longleftrightarrow> suffix p s"
proof (induction s)
  case Nil
  from assms show ?case by (cases p) auto
next
  case (Cons c cs)
  from assms Cons show ?case
    by (auto simp: wild_match_literal suffix_Cons)
qed

lemma ends_ni:
  assumes "length b > 3" and "b ! (length b - 1) = CHR ''i''"
    and "b ! (length b - 2) = CHR ''n''" and "b ! (length b - 3) = CHR ''.''"
  shows "b = take (length b - 3) b @ ''.ni''"
proof -
  have "drop (length b - 3) b = ''.ni''"
  proof (rule nth_equalityI)
    show "length (drop (length b - 3) b) = length ''.ni''"
      using assms(1) by simp
  next
    fix i assume "i < length (drop (length b - 3) b)"
    with assms(1) have "i < 3" by simp
    then consider "i = 0" | "i = 1" | "i = 2" by linarith
    then show "drop (length b - 3) b ! i = ''.ni'' ! i"
    proof cases
      case 1
      with assms show ?thesis by simp
    next
      case 2
      moreover from assms(1) have "length b - 3 + 1 = length b - 2" by simp
      ultimately show ?thesis using assms by simp
    next
      case 3
      moreover from assms(1) have "length b - 3 + 2 = length b - 1" by simp
      ultimately show ?thesis using assms by simp
    qed
  qed
  then show ?thesis
    by (metis append_take_drop_id)
qed

lemma RemoveExtensionAndNi_ext:
  assumes "CHR ''.'' \<notin> set ext"
  shows "b @ CHR ''.'' # ext = RemoveExtensionAndNi (b @ CHR ''.'' # ext) @ CHR ''.'' # ext \<or>
         b @ CHR ''.'' # ext = RemoveExtensionAndNi (b @ CHR ''.'' # ext) @ ''.ni'' @ CHR ''.'' # ext"
proof -
  have r: "wcsrchr (b @ CHR ''.'' # ext) CHR ''.'' = Some (length b)"
    by (rule wcsrchr_last [OF assms])
  show ?thesis
  proof (cases "length b > 3 \<and> b ! (length b - 1) = CHR ''i'' \<and>
      b ! (length b - 2) = CHR ''n'' \<and> b ! (length b - 3) = CHR ''.''")
    case True
    then have "b = take (length b - 3) b @ ''.ni''"
      using ends_ni by blast
    moreover from True r have
      "RemoveExtensionAndNi (b @ CHR ''.'' # ext) = take (length b - 3) b"
      by (simp add: RemoveExtensionAndNi_def Let_def)
    ultimately show ?thesis
      by (metis append.assoc)
  next
    case False
    with r have "RemoveExtensionAndNi (b @ CHR ''.'' # ext) = b"
      by (auto simp: RemoveExtensionAndNi_def Let_def)
    then show ?thesis by simp
  qed
qed

lemma towlower_rgTPAExtensions: "\<forall>e\<in>set rgTPAExtensions. map towlower e = e"
  by code_simp

lemma matched_extension:
  assumes "e \<in> set rgTPAExtensions"
    and "wild_match (map towlower e) f"
  shows "\<exists>e'\<in>set rgTPAExtensions. f = RemoveExtensionAndNi f @ tl e'"
proof -
  from assms(1) towlower_rgTPAExtensions have le: "map towlower e = e" by blast
  from assms(1) have "e = ''*.ni.dll'' \<or> e = ''*.dll'' \<or> e = ''*.ni.exe'' \<or> e = ''*.exe''"
    by (simp add: rgTPAExtensions_def)
  then have "suffix ''.dll'' f \<or> suffix ''.exe'' f"
  proof (elim disjE)
    assume "e = ''*.ni.dll''"
    with assms(2) le have "suffix ''.ni.dll'' f" by (simp add: wild_match_star)
    then obtain zs where "f = zs @ ''.ni.dll''" by (auto simp: suffix_def)
    then have "f = (zs @ ''.ni'') @ ''.dll''" by simp
    then have "suffix ''.dll'' f" by (rule suffixI)
    then show ?thesis ..
  next
    assume "e = ''*.dll''"
    with assms(2) le show ?thesis by (simp add: wild_match_star)
  next
    assume "e = ''*.ni.exe''"
    with assms(2) le have "suffix ''.ni.exe'' f" by (simp add: wild_match_star)
    then obtain zs where "f = zs @ ''.ni.exe''" by (auto simp: suffix_def)
    then have "f = (zs @ ''.ni'') @ ''.exe''" by simp
    then have "suffix ''.exe'' f" by (rule suffixI)
    then show ?thesis ..
  next
    assume "e = ''*.exe''"
    with assms(2) le show ?thesis by (simp add: wild_match_star)
  qed
  then show ?thesis
  proof
    assume "suffix ''.dll'' f"
    then obtain b where "f = b @ CHR ''.'' # ''dll''" by (auto simp: suffix_def)
    with RemoveExtensionAndNi_ext [of "''dll''" b] show ?thesis
      by (auto simp: rgTPAExtensions_def)
  next
    assume "suffix ''.exe'' f"
    then obtain b where "f = b @ CHR ''.'' # ''exe''" by (auto simp: suffix_def)
    with RemoveExtensionAndNi_ext [of "''exe''" b] show ?thesis
      by (auto simp: rgTPAExtensions_def)
  qed
qed

lemma ScanSequence_mem:
  assumes "x \<in> set (ScanSequence os dirs exts)"
  shows "\<exists>d\<in>set dirs. \<exists>e\<in>set exts. \<exists>data\<in>set (FindFirstFile os (d @ e)).
           x = (d, map towlower (cFileName data)) \<and>
           dwFileAttributes data AND FILE_ATTRIBUTE_DIRECTORY = 0"
  using assms by (auto simp: ScanSequence_def found_files_def)

lemma FindFirstFile_mem:
  assumes "directory_path d" and "e \<in> set rgTPAExtensions"
    and "data \<in> set (FindFirstFile os (d @ e))"
  shows "data \<in> set (files os d) \<and> wild_match (map towlower e) (map towlower (cFileName data))"
proof -
  from assms(2) have "BACKSLASH \<notin> set e"
    by (auto simp: rgTPAExtensions_def BACKSLASH_def)
  with assms(1) have "split_path (d @ e) = (d, e)"
    by (simp add: split_path_append directory_path_def)
  with assms(3) show ?thesis
    by (simp add: FindFirstFile_def)
qed

lemma ScanSequence_well_scanned:
  assumes "\<forall>d\<in>set dirs. directory_path d" and "set exts = set rgTPAExtensions"
    and "x \<in> set (ScanSequence os dirs exts)"
  shows "well_scanned exts x"
proof -
  from ScanSequence_mem [OF assms(3)] obtain d e data where
    m: "d \<in> set dirs" "e \<in> set exts" "data \<in> set (FindFirstFile os (d @ e))"
    "x = (d, map towlower (cFileName data))"
    by blast
  from m(1) assms(1) have dp: "directory_path d" by blast
  from m(2) assms(2) have e: "e \<in> set rgTPAExtensions" by simp
  from FindFirstFile_mem [OF dp e m(3)] matched_extension [OF e] assms(2) dp m(4)
  show ?thesis
    by (simp add: well_scanned_def directory_path_def)
qed

lemma retained_subset: "set (retained exts tpa xs) \<subseteq> set xs"
proof (induction xs arbitrary: tpa)
  case Nil
  show ?case by simp
next
  case (Cons x xs)
  obtain d f where x: "x = (d, f)" by (cases x)
  from Cons.IH [of tpa] Cons.IH [of "tpa @ d @ f @ '';''"] show ?case
    unfolding x by auto
qed

lemma logical_name_entry:
  assumes "directory_path d" and "BACKSLASH \<notin> set f" and "map towlower f = f"
  shows "logical_name (d @ f) = RemoveExtensionAndNi f"
  using assms by (simp add: logical_name_def split_path_append directory_path_def)

lemma map_towlower_idem: "map towlower (map towlower f) = map towlower f"
  by (simp add: towlower_idem)

lemma semicolon_map_towlower:
  assumes "CHR '';'' \<notin> set n"
  shows "CHR '';'' \<notin> set (map towlower n)"
proof
  assume "CHR '';'' \<in> set (map towlower n)"
  then obtain c where c: "c \<in> set n" and t: "CHR '';'' = towlower c" by auto
  from t have "towlower c = CHR '';''" by (rule sym)
  then have "c = CHR '';''" by (simp only: towlower_eq_semicolon)
  with c assms show False by simp
qed

lemma backslash_map_towlower:
  assumes "BACKSLASH \<notin> set n"
  shows "BACKSLASH \<notin> set (map towlower n)"
proof
  assume "BACKSLASH \<in> set (map towlower n)"
  then obtain c where c: "c \<in> set n" and t: "BACKSLASH = towlower c" by auto
  from t have "towlower c = BACKSLASH" by (rule sym)
  then have "c = BACKSLASH" by (simp only: towlower_eq_backslash)
  with c assms show False by simp
qed

lemma ScanSequence_clean:
  assumes "\<forall>d\<in>set dirs. directory_path d" and "set exts = set rgTPAExtensions"
    and "separator_free os dirs"
    and "(d, f) \<in> set (ScanSequence os dirs exts)"
  shows "directory_path d \<and> CHR '';'' \<notin> set d \<and> CHR '';'' \<notin> set f \<and>
         BACKSLASH \<notin> set f \<and> map towlower f = f"
proof -
  from ScanSequence_mem [OF assms(4)] obtain e data where
    m: "d \<in> set dirs" "e \<in> set exts" "data \<in> set (FindFirstFile os (d @ e))"
    "f = map towlower (cFileName data)"
    by auto
  from m(1) assms(1) have dp: "directory_path d" by blast
  from m(2) assms(2) have e: "e \<in> set rgTPAExtensions" by simp
  from FindFirstFile_mem [OF dp e m(3)] have "data \<in> set (files os d)" by simp
  with assms(3) m(1) have
    "CHR '';'' \<notin> set d" "CHR '';'' \<notin> set (cFileName data)" "BACKSLASH \<notin> set (cFileName data)"
    by (auto simp: separator_free_def)
  with dp m(4) show ?thesis
    using semicolon_map_towlower [of "cFileName data"] backslash_map_towlower [of "cFileName data"]
    by (simp add: towlower_idem)
qed

lemma TPA_build_contents:
  assumes "AddFilesFromDirectories os exts dirs (this, calls) = Some (this', calls')"
    and "m_tpaList this = StringBuffer_init"
  shows "contents (m_tpaList this') = TPA_string (retained exts [] (ScanSequence os dirs exts))"
proof -
  from assms(2) have i: "StringBuffer_inv (m_tpaList this)" and c: "contents (m_tpaList this) = []"
    by (simp_all add: StringBuffer_inv_def StringBuffer_init_def contents_def CStr_def)
  from AddFilesFromDirectories_contents [OF i assms(1)] c show ?thesis
    by (simp add: foldl_add_entry_retained)
qed

lemma TPA_build_distinct:
  assumes build: "AddFilesFromDirectories os exts dirs (this, calls) = Some (this', calls')"
    and start: "m_tpaList this = StringBuffer_init"
    and exts: "set exts = set rgTPAExtensions"
    and dirs: "\<forall>d\<in>set dirs. directory_path d"
    and sep: "separator_free os dirs"
  shows "distinct (map logical_name (TPA_entries (contents (m_tpaList this'))))"
proof -
  let ?scan = "ScanSequence os dirs exts"
  let ?es = "retained exts [] ?scan"
  have sub: "set ?es \<subseteq> set ?scan" by (rule retained_subset)
  have clean: "directory_path d \<and> CHR '';'' \<notin> set d \<and> CHR '';'' \<notin> set f \<and>
      BACKSLASH \<notin> set f \<and> map towlower f = f" if "(d, f) \<in> set ?es" for d f
    using ScanSequence_clean [OF dirs exts sep] that sub by blast
  have "\<forall>x\<in>set ?scan. well_scanned exts x"
    using ScanSequence_well_scanned [OF dirs exts] by blast
  from retained_props [OF this, of "[]"]
  have d: "distinct (map (\<lambda>x. RemoveExtensionAndNi (snd x)) ?es)" by simp
  have "TPA_entries (TPA_string ?es) = map (\<lambda>(d, f). d @ f) ?es"
    by (rule TPA_entries_TPA_string) (use clean in blast)
  then have e: "TPA_entries (contents (m_tpaList this')) = map (\<lambda>(d, f). d @ f) ?es"
    using TPA_build_contents [OF build start] by simp
  have l: "map logical_name (map (\<lambda>(d, f). d @ f) ?es) =
      map (\<lambda>x. RemoveExtensionAndNi (snd x)) ?es"
    using clean by (auto simp: logical_name_entry)
  show ?thesis
    unfolding e l by (rule d)
qed

lemma TPA_build_first:
  assumes build: "AddFilesFromDirectories os exts dirs (this, calls) = Some (this', calls')"
    and start: "m_tpaList this = StringBuffer_init"
    and first: "ScanSequence os dirs exts = (d, f) # rest"
  shows "\<exists>t. CStr (m_tpaList this') = Some (d @ f @ '';'' @ t)"
proof -
  from TPA_build_contents [OF build start] first
  have "contents (m_tpaList this') =
      d @ f @ '';'' @ TPA_string (retained exts (d @ f @ '';'') rest)"
    by (simp add: TPA_string_Cons)
  then show ?thesis
    by (cases "CStr (m_tpaList this')") (auto simp: contents_def)
qed

lemma GetTpaList_distinct:
  assumes get: "GetTpaList os (this, calls) = Some (r, this', calls')"
    and start: "m_tpaList this = StringBuffer_init"
    and clr: "directory_path (m_coreCLRDirectoryPath this)"
    and sep: "separator_free os (candidate_directories os this)"
  shows "distinct (map logical_name (TPA_entries (contents (m_tpaList this')))) \<and>
         r = CStr (m_tpaList this')"
proof -
  from start have "CStr (m_tpaList this) = None"
    by (simp add: StringBuffer_init_def CStr_def)
  from GetTpaList_AddFilesFromDirectories [OF this get] have
    build: "AddFilesFromDirectories os rgTPAExtensions (candidate_directories os this)
      (this, calls) = Some (this', calls')" and r: "r = CStr (m_tpaList this')"
    by simp_all
  have dirs: "\<forall>d\<in>set (candidate_directories os this). directory_path d"
    using clr by (auto simp: candidate_directories_def directory_path_def split: prod.splits)
  from TPA_build_distinct [OF build start refl dirs sep] r show ?thesis by simp
qed

lemma first_file_step:
  assumes "dwFileAttributes data AND FILE_ATTRIBUTE_DIRECTORY = 0"
    and "length targetPath + length (cFileName data) < MAX_PATH"
  shows "\<exists>sb. AddFiles_found targetPath exts [data] StringBuffer_init = Some sb \<and>
           CStr sb = Some (targetPath @ map towlower (cFileName data) @ '';'')"
  using assms
  by (auto simp: TPAListContainsFile_def CStr_def StringBuffer_init_def wcscpy_s_def
      wcsncpy_s_def Append_def store_at_def MAX_PATH_def m_defaultSize_def Let_def)

lemma Append_buffer: "Append sb str n = Some sb' \<Longrightarrow> m_buffer sb' \<noteq> None"
  by (auto simp: Append_def Let_def split: bind_splits if_splits prod.splits)

lemma AddFiles_found_step:
  assumes "AddFiles_found targetPath exts (data # rest) sb = Some sb'"
  shows "AddFiles_found targetPath exts rest sb = Some sb' \<or>
         (\<exists>sb1. m_buffer sb1 \<noteq> None \<and> AddFiles_found targetPath exts rest sb1 = Some sb')"
proof -
  from assms obtain sb1 where
    r: "AddFiles_found targetPath exts rest sb1 = Some sb'"
    and s: "sb1 = sb \<or> (\<exists>sb2. Append sb2 '';'' 1 = Some sb1)"
    by (auto simp: Let_def split: bind_splits if_splits)
  from s show ?thesis
  proof
    assume "sb1 = sb"
    with r show ?thesis by simp
  next
    assume "\<exists>sb2. Append sb2 '';'' 1 = Some sb1"
    then have "m_buffer sb1 \<noteq> None" using Append_buffer by blast
    with r show ?thesis by blast
  qed
qed

lemma AddFiles_found_keeps:
  "m_buffer sb \<noteq> None \<Longrightarrow> AddFiles_found targetPath exts found sb = Some sb' \<Longrightarrow>
   m_buffer sb' \<noteq> None"
proof (induction found arbitrary: sb)
  case Nil
  then show ?case by simp
next
  case (Cons data rest)
  from AddFiles_found_step [OF Cons.prems(2)] Cons.IH Cons.prems(1) show ?case
    by blast
qed

lemma AddFiles_found_untouched:
  "AddFiles_found targetPath exts found sb = Some sb' \<Longrightarrow> m_buffer sb' = None \<Longrightarrow> sb' = sb"
proof (induction found arbitrary: sb)
  case Nil
  then show ?case by simp
next
  case (Cons data rest)
  from AddFiles_found_step [OF Cons.prems(1)] show ?case
  proof
    assume "AddFiles_found targetPath exts rest sb = Some sb'"
    with Cons.IH Cons.prems(2) show ?thesis by blast
  next
    assume "\<exists>sb1. m_buffer sb1 \<noteq> None \<and> AddFiles_found targetPath exts rest sb1 = Some sb'"
    with AddFiles_found_keeps Cons.prems(2) show ?thesis by blast
  qed
qed

lemma AddFiles_extensions_step:
  assumes "AddFiles_extensions os targetPath exts (e # rest) (sb, calls) = Some (sb', calls')"
  shows "\<exists>sb1. AddFiles_found targetPath exts (FindFirstFile os (targetPath @ e)) sb = Some sb1 \<and>
           AddFiles_extensions os targetPath exts rest
             (sb1, calls @ [FindFirstFileW (targetPath @ e)]) = Some (sb', calls') \<and>
           (\<forall>calls2. AddFiles_extensions os targetPath exts (e # rest) (sb, calls2) =
              AddFiles_extensions os targetPath exts rest
                (sb1, calls2 @ [FindFirstFileW (targetPath @ e)]))"
  using assms
  by (auto simp: wcscpy_s_def wcscat_s_def Let_def split: bind_splits if_splits)

lemma AddFiles_extensions_untouched:
  "AddFiles_extensions os targetPath exts rest (sb, calls) = Some (sb', calls') \<Longrightarrow>
   m_buffer sb' = None \<Longrightarrow> sb' = sb"
proof (induction rest arbitrary: sb calls)
  case Nil
  then show ?case by simp
next
  case (Cons e rest)
  from AddFiles_extensions_step [OF Cons.prems(1)] obtain sb1 where
    f: "AddFiles_found targetPath exts (FindFirstFile os (targetPath @ e)) sb = Some sb1"
    and r: "AddFiles_extensions os targetPath exts rest
              (sb1, calls @ [FindFirstFileW (targetPath @ e)]) = Some (sb', calls')"
    by blast
  from Cons.IH [OF r Cons.prems(2)] have "sb' = sb1" .
  with f Cons.prems(2) AddFiles_found_untouched show ?case by blast
qed

lemma AddFiles_extensions_calls:
  "AddFiles_extensions os targetPath exts rest (sb, calls) = Some (sb', calls') \<Longrightarrow>
   AddFiles_extensions os targetPath exts rest (sb, calls2) =
     Some (sb', calls2 @ map (\<lambda>e. FindFirstFileW (targetPath @ e)) rest)"
proof (induction rest arbitrary: sb calls calls2)
  case Nil
  then show ?case by simp
next
  case (Cons e rest)
  from AddFiles_extensions_step [OF Cons.prems] obtain sb1 where
    r: "AddFiles_extensions os targetPath exts rest
              (sb1, calls @ [FindFirstFileW (targetPath @ e)]) = Some (sb', calls')"
    and c: "AddFiles_extensions os targetPath exts (e # rest) (sb, calls2) =
              AddFiles_extensions os targetPath exts rest
                (sb1, calls2 @ [FindFirstFileW (targetPath @ e)])"
    by blast
  from Cons.IH [OF r, of "calls2 @ [FindFirstFileW (targetPath @ e)]"] c show ?case
    by simp
qed

lemma AddFilesFromDirectoryToTPAList_again:
  assumes "AddFilesFromDirectoryToTPAList os d exts (this, calls) = Some (this', calls')"
    and "CStr (m_tpaList this') = None"
  shows "this' = this \<and>
         AddFilesFromDirectoryToTPAList os d exts (this, calls2) =
           Some (this, calls2 @ map (\<lambda>e. FindFirstFileW (d @ e)) exts)"
proof -
  from assms(1) obtain sb' where
    e: "AddFiles_extensions os d exts exts (m_tpaList this, calls) = Some (sb', calls')"
    and t: "this' = this\<lparr>m_tpaList := sb'\<rparr>"
    by (auto simp: AddFilesFromDirectoryToTPAList_def split: bind_splits)
  from t assms(2) have "m_buffer sb' = None" by (simp add: CStr_def)
  from AddFiles_extensions_untouched [OF e this] have s: "sb' = m_tpaList this" .
  with t have "this' = this" by simp
  moreover from AddFiles_extensions_calls [OF e, of calls2] s
  have "AddFilesFromDirectoryToTPAList os d exts (this, calls2) =
      Some (this, calls2 @ map (\<lambda>e. FindFirstFileW (d @ e)) exts)"
    by (simp add: AddFilesFromDirectoryToTPAList_def)
  ultimately show ?thesis by simp
qed

lemma GetTpaList_cached:
  assumes "CStr (m_tpaList this) \<noteq> None"
  shows "GetTpaList os (this, calls) = Some (CStr (m_tpaList this), this, calls)"
  using assms by (cases "CStr (m_tpaList this)") (simp_all add: GetTpaList_def)

lemma AddFilesFromDirectoryToTPAList_keeps:
  assumes "AddFilesFromDirectoryToTPAList os d exts (this, calls) = Some (this', calls')"
    and "CStr (m_tpaList this') = None"
  shows "CStr (m_tpaList this) = None"
  using AddFilesFromDirectoryToTPAList_again [OF assms] assms(2) by simp

lemma GetTpaList_scans:
  assumes "CStr (m_tpaList this) = None"
    and "GetTpaList os (this, calls) = Some (r, this', calls')"
  shows "calls' = calls @ concat (map (\<lambda>d. map (\<lambda>e. FindFirstFileW (d @ e)) rgTPAExtensions)
           (candidate_directories os this))"
proof -
  from GetTpaList_AddFilesFromDirectories [OF assms] have
    b: "AddFilesFromDirectories os rgTPAExtensions (candidate_directories os this)
          (this, calls) = Some (this', calls')" by simp
  have "AddFilesFromDirectories os exts dirs (t, c) = Some (t', c') \<Longrightarrow>
      c' = c @ concat (map (\<lambda>d. map (\<lambda>e. FindFirstFileW (d @ e)) exts) dirs)"
    for exts dirs t c t' c'
  proof (induction dirs arbitrary: t c)
    case Nil
    then show ?case by simp
  next
    case (Cons d ds)
    from Cons.prems obtain t1 c1 where
      one: "AddFilesFromDirectoryToTPAList os d exts (t, c) = Some (t1, c1)"
      and more: "AddFilesFromDirectories os exts ds (t1, c1) = Some (t', c')"
      by (auto split: bind_splits)
    from one obtain sb where
      "AddFiles_extensions os d exts exts (m_tpaList t, c) = Some (sb, c1)"
      by (auto simp: AddFilesFromDirectoryToTPAList_def split: bind_splits)
    from AddFiles_extensions_calls [OF this, of c] this
    have "c1 = c @ map (\<lambda>e. FindFirstFileW (d @ e)) exts" by simp
    with Cons.IH [OF more] show ?case by simp
  qed
  from this [OF b] show ?thesis .
qed

lemma GetTpaList_empty_again:
  assumes none: "CStr (m_tpaList this) = None"
    and get: "GetTpaList os (this, calls) = Some (None, this', calls')"
  shows "this' = this \<and>
         GetTpaList os (this, calls2) =
           Some (None, this, calls2 @
             concat (map (\<lambda>d. map (\<lambda>e. FindFirstFileW (d @ e)) rgTPAExtensions)
               (candidate_directories os this)))"
proof -
  obtain err outSize coreLibraries where
    w: "wgetenv_s os MAX_PATH ''CORE_LIBRARIES'' = (err, outSize, coreLibraries)"
    by (cases "wgetenv_s os MAX_PATH ''CORE_LIBRARIES''")
  show ?thesis
  proof (cases "err = 0 \<and> outSize > 0")
    case False
    with none get w obtain
      a: "AddFilesFromDirectoryToTPAList os (m_coreCLRDirectoryPath this) rgTPAExtensions
            (this, calls) = Some (this', calls')"
      and n: "CStr (m_tpaList this') = None"
      by (auto simp: GetTpaList_def split: bind_splits)
    from AddFilesFromDirectoryToTPAList_again [OF a n, of calls2] none False w show ?thesis
      by (auto simp: GetTpaList_def candidate_directories_def)
  next
    case True
    with none get w obtain lib this1 calls1 where
      l: "wcscat_s coreLibraries MAX_PATH [BACKSLASH] = Some lib"
      and a1: "AddFilesFromDirectoryToTPAList os lib rgTPAExtensions (this, calls) =
            Some (this1, calls1)"
      and a2: "AddFilesFromDirectoryToTPAList os (m_coreCLRDirectoryPath this1) rgTPAExtensions
            (this1, calls1) = Some (this', calls')"
      and n: "CStr (m_tpaList this') = None"
      by (auto simp: GetTpaList_def split: bind_splits)
    from AddFilesFromDirectoryToTPAList_keeps [OF a2 n] have n1: "CStr (m_tpaList this1) = None" .
    from AddFilesFromDirectoryToTPAList_again [OF a1 n1, of calls2] have
      t1: "this1 = this" and
      r1: "AddFilesFromDirectoryToTPAList os lib rgTPAExtensions (this, calls2) =
        Some (this, calls2 @ map (\<lambda>e. FindFirstFileW (lib @ e)) rgTPAExtensions)"
      by simp_all
    from AddFilesFromDirectoryToTPAList_again [OF a2 n,
        of "calls2 @ map (\<lambda>e. FindFirstFileW (lib @ e)) rgTPAExtensions"] t1 have
      t2: "this' = this" and
      r2: "AddFilesFromDirectoryToTPAList os (m_coreCLRDirectoryPath this) rgTPAExtensions
          (this, calls2 @ map (\<lambda>e. FindFirstFileW (lib @ e)) rgTPAExtensions) =
        Some (this, (calls2 @ map (\<lambda>e. FindFirstFileW (lib @ e)) rgTPAExtensions) @
          map (\<lambda>e. FindFirstFileW (m_coreCLRDirectoryPath this @ e)) rgTPAExtensions)"
      by simp_all
    from l have lib: "lib = coreLibraries @ [BACKSLASH]"
      by (simp add: wcscat_s_def split: if_splits)
    from none True w l r1 r2 t2 lib show ?thesis
      by (simp add: GetTpaList_def candidate_directories_def)
  qed
qed

section \<open>The claims about the trust list\<close>



text \<open>
  C10. The membership test answers false whenever the list is still empty. So the first
  file of a build that is not a directory is appended: the step for it returns with the
  path in the list when directory and name fit a path buffer, and the list of every build
  that returns starts with that path.
\<close>

theorem C10_first_file_is_appended:
  "(CStr tpaList = None \<longrightarrow>
      TPAListContainsFile tpaList fileNameWithoutExtension exts = Some False) \<and>
   (dwFileAttributes data AND FILE_ATTRIBUTE_DIRECTORY = 0 \<and>
    length targetPath + length (cFileName data) < MAX_PATH \<longrightarrow>
      (\<exists>sb. AddFiles_found targetPath exts [data] StringBuffer_init = Some sb \<and>
         CStr sb = Some (targetPath @ map towlower (cFileName data) @ '';''))) \<and>
   (AddFilesFromDirectories os exts dirs (this, calls) = Some (this', calls') \<and>
    m_tpaList this = StringBuffer_init \<and>
    ScanSequence os dirs exts = (d, f) # rest \<longrightarrow>
      (\<exists>t. CStr (m_tpaList this') = Some (d @ f @ '';'' @ t)))"
  using first_file_step [of data targetPath exts] TPA_build_first [of os exts dirs this calls]
  by (simp add: TPAListContainsFile_def)

theorem C10_first_file_is_appended_witness:
  "TPAListContainsFile StringBuffer_init ''foo'' rgTPAExtensions = Some False \<and>
   (\<exists>sb. AddFiles_found (dir [''C:'', ''lib'']) rgTPAExtensions [regular_file ''Foo.dll'']
            StringBuffer_init = Some sb \<and>
      CStr sb = Some (dir [''C:'', ''lib''] @ map towlower (cFileName (regular_file ''Foo.dll''))
                      @ '';'')) \<and>
   (\<exists>t. CStr (m_tpaList (fst (the (AddFilesFromDirectories example_os rgTPAExtensions
            example_directories (example_host, []))))) =
      Some (dir [''C:'', ''lib''] @ ''bar.ni.dll'' @ '';'' @ t))"
proof -
  let ?r = "AddFilesFromDirectories example_os rgTPAExtensions example_directories
    (example_host, [])"
  let ?scan = "ScanSequence example_os example_directories rgTPAExtensions"
  have "?r \<noteq> None" by code_simp
  then have build: "?r = Some (fst (the ?r), snd (the ?r))" by simp
  have start: "m_tpaList example_host = StringBuffer_init" by (simp add: example_host_def)
  have scan: "?scan = (dir [''C:'', ''lib''], ''bar.ni.dll'') # tl ?scan" by code_simp
  have empty: "CStr StringBuffer_init = None" by (simp add: CStr_def StringBuffer_init_def)
  have isfile: "dwFileAttributes (regular_file ''Foo.dll'') AND FILE_ATTRIBUTE_DIRECTORY = 0"
    by (simp add: regular_file_def FILE_ATTRIBUTE_DIRECTORY_def)
  have fits: "length (dir [''C:'', ''lib'']) + length (cFileName (regular_file ''Foo.dll''))
      < MAX_PATH"
    by (simp add: regular_file_def dir_def MAX_PATH_def)
  from C10_first_file_is_appended [of StringBuffer_init "''foo''" rgTPAExtensions
      "regular_file ''Foo.dll''" "dir [''C:'', ''lib'']" example_os example_directories
      example_host "[]" "fst (the ?r)" "snd (the ?r)" "dir [''C:'', ''lib'']" "''bar.ni.dll''"
      "tl ?scan"]
    build start scan empty isfile fits
  show ?thesis by blast
qed

text \<open>
  C7. The getter builds the list only when the buffer is still empty at the call: then it
  searches every candidate directory, otherwise it makes no search. Once a build has
  appended a path, every later call returns that same list and state without a search,
  whatever the directories then hold. A later call on unchanged directories always
  returns the same list and state; when the build appended nothing, it does so by
  searching again.
\<close>

theorem C7_GetTpaList_cached:
  assumes "GetTpaList os (this, calls) = Some (r, this', calls')"
  shows "calls' = calls @
           (if CStr (m_tpaList this) = None
            then concat (map (\<lambda>d. map (\<lambda>e. FindFirstFileW (d @ e)) rgTPAExtensions)
                   (candidate_directories os this))
            else []) \<and>
         (r \<noteq> None \<longrightarrow>
            (\<forall>os2 calls2. GetTpaList os2 (this', calls2) = Some (r, this', calls2))) \<and>
         (\<exists>scans. GetTpaList os (this', calls') = Some (r, this', calls' @ scans))"
proof (cases "CStr (m_tpaList this) = None")
  case False
  from GetTpaList_cached [OF False, of os calls] assms
  have e: "r = CStr (m_tpaList this)" "this' = this" "calls' = calls"
    by simp_all
  from False e GetTpaList_cached [OF False] show ?thesis
    by auto
next
  case True
  note sc = GetTpaList_scans [OF True assms]
  from GetTpaList_AddFilesFromDirectories [OF True assms] have r: "r = CStr (m_tpaList this')"
    by simp
  show ?thesis
  proof (cases r)
    case None
    with assms have g: "GetTpaList os (this, calls) = Some (None, this', calls')" by simp
    from GetTpaList_empty_again [OF True g, of calls'] None sc True show ?thesis
      by simp
  next
    case (Some s)
    with r have "CStr (m_tpaList this') = Some s" by simp
    then have "CStr (m_tpaList this') \<noteq> None" by simp
    from GetTpaList_cached [OF this] r Some sc True show ?thesis
      by simp
  qed
qed

theorem C7_GetTpaList_cached_witness:
  "\<forall>os2 calls2.
     GetTpaList os2 (fst (snd (the (GetTpaList example_os (example_host, [])))), calls2) =
     Some (fst (the (GetTpaList example_os (example_host, []))),
           fst (snd (the (GetTpaList example_os (example_host, [])))), calls2)"
proof -
  let ?g = "GetTpaList example_os (example_host, [])"
  have "?g \<noteq> None" by code_simp
  then have get: "?g = Some (fst (the ?g), fst (snd (the ?g)), snd (snd (the ?g)))" by simp
  have r: "fst (the ?g) \<noteq> None" by code_simp
  from C7_GetTpaList_cached [OF get] r show ?thesis by blast
qed

text \<open>
  The claim as it stands fails when the first build finds no file: the buffer is still
  empty afterwards, and the next call searches all the directories again.
\<close>

theorem C7_counterexample_rescan_after_empty_build:
  "GetTpaList empty_os (example_host, []) = Some (None, example_host, example_scans) \<and>
   GetTpaList empty_os (example_host, example_scans) =
     Some (None, example_host, example_scans @ example_scans) \<and>
   example_scans \<noteq> []"
  by code_simp

section \<open>First writer wins\<close>











lemma FirstWins_keeps_first:
  assumes "xs = ys @ (d, f) # zs"
    and "RemoveExtensionAndNi f \<notin> (\<lambda>x. RemoveExtensionAndNi (snd x)) ` set ys"
    and "RemoveExtensionAndNi f \<notin> set seen"
  shows "(d, f) \<in> set (FirstWins seen xs)"
  using assms
proof (induction ys arbitrary: xs seen)
  case Nil
  then show ?case by simp
next
  case (Cons a ys)
  obtain d' f' where a: "a = (d', f')" by (cases a)
  from Cons.prems(2) a have ne: "RemoveExtensionAndNi f \<noteq> RemoveExtensionAndNi f'"
    and r: "RemoveExtensionAndNi f \<notin> (\<lambda>x. RemoveExtensionAndNi (snd x)) ` set ys"
    by auto
  from ne Cons.prems(3) have s: "RemoveExtensionAndNi f \<notin> set (RemoveExtensionAndNi f' # seen)"
    by simp
  from Cons.IH [OF refl r Cons.prems(3)] Cons.IH [OF refl r s] Cons.prems(1) a show ?case
    by simp
qed








lemma ScanSequence_chunks:
  "ScanSequence os dirs rgTPAExtensions =
     concat (map (\<lambda>d. scan_of_directory os d ''*.ni.dll'' @ scan_of_directory os d ''*.dll'' @
       scan_of_directory os d ''*.ni.exe'' @ scan_of_directory os d ''*.exe'') dirs)"
  by (simp add: ScanSequence_def scan_of_directory_def rgTPAExtensions_def)
















end
